theory Spec2Isabelle
  imports Main "HOL-Library.Word"
begin

section \<open>The Synacor machine of package synacor\<close>

text \<open>
  The embedding follows the complete machine of the repository (the second file of
  \<^verbatim>\<open>src/main.go\<close>, package \<^verbatim>\<open>synacor\<close>). Go's \<^verbatim>\<open>uint16\<close> is a 16-bit
  word: addition, subtraction and multiplication wrap around. A slice is a list; an index or
  a slice expression out of range, and a remainder by zero, are run-time panics of Go and
  are results of their own here.
\<close>

type_synonym u16 = "16 word"

subsection \<open>Constants\<close>

definition NREGS :: nat where "NREGS = 8"
definition MAX_15BIT :: u16 where "MAX_15BIT = 32767"
definition OVERFLOW_15BIT :: u16 where "OVERFLOW_15BIT = 32768"
definition MAX_REG :: u16 where "MAX_REG = MAX_15BIT + 8"

datatype run_state = RUNNING | HALTED | ERROR

definition HALT :: u16 where "HALT = 0"
definition SET :: u16 where "SET = 1"
definition PUSH :: u16 where "PUSH = 2"
definition POP :: u16 where "POP = 3"
definition EQ :: u16 where "EQ = 4"
definition GT :: u16 where "GT = 5"
definition JMP :: u16 where "JMP = 6"
definition JT :: u16 where "JT = 7"
definition JF :: u16 where "JF = 8"
definition ADD :: u16 where "ADD = 9"
definition MULT :: u16 where "MULT = 10"
definition MOD :: u16 where "MOD = 11"
definition AND :: u16 where "AND = 12"
definition OR :: u16 where "OR = 13"
definition NOT :: u16 where "NOT = 14"
definition RMEM :: u16 where "RMEM = 15"
definition WMEM :: u16 where "WMEM = 16"
definition CALL :: u16 where "CALL = 17"
definition RET :: u16 where "RET = 18"
definition OUT :: u16 where "OUT = 19"
definition IN :: u16 where "IN = 20"
definition NOOP :: u16 where "NOOP = 21"

text \<open>The map \<^verbatim>\<open>argsForOp\<close>; a key that is absent reads as Go's zero value.\<close>

definition argsForOp :: "u16 \<Rightarrow> u16" where
  "argsForOp op =
     (if op = HALT then 0 else if op = SET then 2 else if op = PUSH then 1
      else if op = POP then 1 else if op = EQ then 3 else if op = GT then 3
      else if op = JMP then 1 else if op = JT then 2 else if op = JF then 2
      else if op = ADD then 3 else if op = MULT then 3 else if op = MOD then 3
      else if op = AND then 3 else if op = OR then 3 else if op = NOT then 2
      else if op = RMEM then 2 else if op = WMEM then 2 else if op = CALL then 1
      else if op = RET then 0 else if op = OUT then 1 else if op = IN then 1
      else if op = NOOP then 0 else 0)"

definition isReg :: "u16 \<Rightarrow> bool" where
  "isReg arg = (MAX_15BIT < arg \<and> arg \<le> MAX_REG)"

definition isValue :: "u16 \<Rightarrow> bool" where
  "isValue arg = (arg \<le> MAX_15BIT)"

definition decipherReg :: "u16 \<Rightarrow> u16" where
  "decipherReg arg = arg - MAX_15BIT - 1"

subsection \<open>The stack\<close>

text \<open>The field \<^verbatim>\<open>data\<close> of \<^verbatim>\<open>Stack\<close>: the top of the stack is the last element.\<close>

type_synonym Stack = "u16 list"

definition NewStack :: Stack where
  "NewStack = []"

definition Push :: "Stack \<Rightarrow> u16 \<Rightarrow> Stack" where
  "Push s v = s @ [v]"

definition IsEmpty :: "Stack \<Rightarrow> bool" where
  "IsEmpty s = (length s = 0)"

text \<open>\<^verbatim>\<open>Pop\<close> returns the value, the flag and the stack it leaves.\<close>

definition Pop :: "Stack \<Rightarrow> u16 \<times> bool \<times> Stack" where
  "Pop s =
     (if IsEmpty s then (0, False, s)
      else (let idx = length s - 1 in (s ! idx, True, take idx s)))"

subsection \<open>The machine\<close>

text \<open>
  What the program writes to standard output, one event for each print call:
  \<^verbatim>\<open>fmt.Printf("%c", v)\<close> writes one character, \<^verbatim>\<open>Error\<close> writes a line with its
  message, and \<^verbatim>\<open>IN\<close> writes the prompt.
\<close>

datatype message = InvalidArgument u16 | PoppedEmptyStack | UnimplementedInstruction

datatype event = Char nat | Line message | Prompt

datatype panic = IndexOutOfRange | SliceBoundsOutOfRange | DivideByZero

text \<open>
  The struct \<^verbatim>\<open>Machine\<close>. The reader \<^verbatim>\<open>input\<close> is the list of the strings that
  the coming calls of \<^verbatim>\<open>ReadString('\n')\<close> return, each a list of code points; at the
  end of the input the call returns the empty string. The field \<open>stdout\<close> is not in the
  struct: it is the standard output written so far.
\<close>

record Machine =
  memory :: "u16 list"
  regs :: "u16 list"
  pc :: u16
  stack :: Stack
  state :: run_state
  input :: "nat list list"
  unused_input :: "u16 list"
  stdout :: "event list"

definition NewMachine :: "u16 list \<Rightarrow> nat list list \<Rightarrow> Machine" where
  "NewMachine prog inp =
     \<lparr> memory = take 32768 prog @ replicate (32768 - length prog) 0,
       regs = replicate NREGS 0,
       pc = 0,
       stack = NewStack,
       state = RUNNING,
       input = inp,
       unused_input = [],
       stdout = [] \<rparr>"

definition Halted :: "Machine \<Rightarrow> bool" where
  "Halted m = (state m \<noteq> RUNNING)"

definition Error :: "Machine \<Rightarrow> message \<Rightarrow> Machine" where
  "Error m msg = m\<lparr>stdout := stdout m @ [Line msg], state := ERROR\<rparr>"

definition Halt :: "Machine \<Rightarrow> Machine" where
  "Halt m = m\<lparr>state := HALTED\<rparr>"

text \<open>\<^verbatim>\<open>readArg\<close> returns the value and the machine, which \<^verbatim>\<open>Error\<close> may have changed.\<close>

definition readArg :: "Machine \<Rightarrow> u16 \<Rightarrow> panic + (u16 \<times> Machine)" where
  "readArg m arg =
     (if isValue arg then Inr (arg, m)
      else if isReg arg then
        (if unat (decipherReg arg) < length (regs m)
         then Inr (regs m ! unat (decipherReg arg), m)
         else Inl IndexOutOfRange)
      else Inr (0, Error m (InvalidArgument arg)))"

text \<open>
  \<^verbatim>\<open>getArgs\<close>: the slice expression \<^verbatim>\<open>m.memory[m.pc+1 : m.pc+1+n]\<close>, whose bounds are
  computed in \<^verbatim>\<open>uint16\<close>.
\<close>

definition getArgs :: "Machine \<Rightarrow> u16 \<Rightarrow> panic + u16 list" where
  "getArgs m op =
     (let n = argsForOp op in
      if 0 < n then
        (let lo = pc m + 1; hi = pc m + 1 + n in
         if unat lo \<le> unat hi \<and> unat hi \<le> length (memory m)
         then Inr (take (unat hi - unat lo) (drop (unat lo) (memory m)))
         else Inl SliceBoundsOutOfRange)
      else Inr [])"

definition nextProgramCounter :: "Machine \<Rightarrow> u16 \<Rightarrow> u16" where
  "nextProgramCounter m op = pc m + 1 + argsForOp op"

text \<open>The assignments \<^verbatim>\<open>m.regs[decipherReg(a)] = v\<close> and \<^verbatim>\<open>m.memory[i] = v\<close>.\<close>

definition setReg :: "Machine \<Rightarrow> u16 \<Rightarrow> u16 \<Rightarrow> panic + Machine" where
  "setReg m a v =
     (if unat (decipherReg a) < length (regs m)
      then Inr (m\<lparr>regs := (regs m)[unat (decipherReg a) := v]\<rparr>)
      else Inl IndexOutOfRange)"

definition setMem :: "Machine \<Rightarrow> u16 \<Rightarrow> u16 \<Rightarrow> panic + Machine" where
  "setMem m i v =
     (if unat i < length (memory m)
      then Inr (m\<lparr>memory := (memory m)[unat i := v]\<rparr>)
      else Inl IndexOutOfRange)"

text \<open>
  The statement that POP, EQ, GT, ADD, MULT, MOD, AND, OR and NOT end with:
  \<^verbatim>\<open>if isReg(args[0]) { m.regs[decipherReg(args[0])] = v } else { m.memory[args[0]] = v }\<close>.
\<close>

definition setDest :: "Machine \<Rightarrow> u16 \<Rightarrow> u16 \<Rightarrow> panic + Machine" where
  "setDest m a v = (if isReg a then setReg m a v else setMem m a v)"

text \<open>\<^verbatim>\<open>b, c := m.readArg(x), m.readArg(y)\<close>, the calls in this order.\<close>

definition readArg2 :: "Machine \<Rightarrow> u16 \<Rightarrow> u16 \<Rightarrow> panic + (u16 \<times> u16 \<times> Machine)" where
  "readArg2 m x y =
     (case readArg m x of
        Inl e \<Rightarrow> Inl e
      | Inr (b, m1) \<Rightarrow>
          (case readArg m1 y of
             Inl e \<Rightarrow> Inl e
           | Inr (c, m2) \<Rightarrow> Inr (b, c, m2)))"

text \<open>
  The verb \<^verbatim>\<open>%c\<close> of \<^verbatim>\<open>fmt.Printf\<close> on a \<^verbatim>\<open>uint16\<close>: the character whose code
  point is the number; a surrogate code point is written as U+FFFD.
\<close>

definition printf_c :: "u16 \<Rightarrow> event" where
  "printf_c v =
     Char (if 55296 \<le> unat v \<and> unat v \<le> 57343 then 65533 else unat v)"

text \<open>
  The refill of IN: the prompt, one call of \<^verbatim>\<open>ReadString\<close>, and every code point of
  the string appended as \<^verbatim>\<open>uint16(c)\<close>.
\<close>

definition refill :: "Machine \<Rightarrow> Machine" where
  "refill m =
     (if length (unused_input m) = 0 then
        (case input m of
           [] \<Rightarrow> m\<lparr>stdout := stdout m @ [Prompt]\<rparr>
         | l # ls \<Rightarrow>
             m\<lparr>stdout := stdout m @ [Prompt], input := ls,
               unused_input := unused_input m @ map word_of_nat l\<rparr>)
      else m)"

text \<open>The last statement of \<^verbatim>\<open>Step\<close>, \<^verbatim>\<open>m.pc = m.nextProgramCounter(op)\<close>.\<close>

definition advance :: "u16 \<Rightarrow> panic + Machine \<Rightarrow> panic + Machine" where
  "advance op r =
     (case r of Inl e \<Rightarrow> Inl e | Inr m \<Rightarrow> Inr (m\<lparr>pc := nextProgramCounter m op\<rparr>))"

text \<open>The \<^verbatim>\<open>switch\<close> of \<^verbatim>\<open>Step\<close> with the statement after it.\<close>

definition exec :: "Machine \<Rightarrow> u16 \<Rightarrow> u16 list \<Rightarrow> panic + Machine" where
  "exec m op args =
     (if op = HALT then Inr (Halt m)
      else if op = SET then
        advance op (case readArg m (args ! 1) of
                      Inl e \<Rightarrow> Inl e
                    | Inr (v, m1) \<Rightarrow> setReg m1 (args ! 0) v)
      else if op = PUSH then
        advance op (case readArg m (args ! 0) of
                      Inl e \<Rightarrow> Inl e
                    | Inr (v, m1) \<Rightarrow> Inr (m1\<lparr>stack := Push (stack m1) v\<rparr>))
      else if op = POP then
        (case Pop (stack m) of
           (v, ok, s) \<Rightarrow>
             if \<not> ok then Inr (Error (m\<lparr>stack := s\<rparr>) PoppedEmptyStack)
             else advance op (setDest (m\<lparr>stack := s\<rparr>) (args ! 0) v))
      else if op = EQ then
        advance op (case readArg2 m (args ! 1) (args ! 2) of
                      Inl e \<Rightarrow> Inl e
                    | Inr (b, c, m1) \<Rightarrow> setDest m1 (args ! 0) (if b = c then 1 else 0))
      else if op = GT then
        advance op (case readArg2 m (args ! 1) (args ! 2) of
                      Inl e \<Rightarrow> Inl e
                    | Inr (b, c, m1) \<Rightarrow> setDest m1 (args ! 0) (if b > c then 1 else 0))
      else if op = JMP then
        (case readArg m (args ! 0) of
           Inl e \<Rightarrow> Inl e
         | Inr (v, m1) \<Rightarrow> Inr (m1\<lparr>pc := v\<rparr>))
      else if op = JT then
        (case readArg m (args ! 0) of
           Inl e \<Rightarrow> Inl e
         | Inr (a, m1) \<Rightarrow>
             if a \<noteq> 0 then
               (case readArg m1 (args ! 1) of
                  Inl e \<Rightarrow> Inl e
                | Inr (v, m2) \<Rightarrow> Inr (m2\<lparr>pc := v\<rparr>))
             else advance op (Inr m1))
      else if op = JF then
        (case readArg m (args ! 0) of
           Inl e \<Rightarrow> Inl e
         | Inr (a, m1) \<Rightarrow>
             if a = 0 then
               (case readArg m1 (args ! 1) of
                  Inl e \<Rightarrow> Inl e
                | Inr (v, m2) \<Rightarrow> Inr (m2\<lparr>pc := v\<rparr>))
             else advance op (Inr m1))
      else if op = ADD then
        advance op (case readArg2 m (args ! 1) (args ! 2) of
                      Inl e \<Rightarrow> Inl e
                    | Inr (b, c, m1) \<Rightarrow> setDest m1 (args ! 0) ((b + c) mod OVERFLOW_15BIT))
      else if op = MULT then
        advance op (case readArg2 m (args ! 1) (args ! 2) of
                      Inl e \<Rightarrow> Inl e
                    | Inr (b, c, m1) \<Rightarrow> setDest m1 (args ! 0) ((b * c) mod OVERFLOW_15BIT))
      else if op = MOD then
        advance op (case readArg2 m (args ! 1) (args ! 2) of
                      Inl e \<Rightarrow> Inl e
                    | Inr (b, c, m1) \<Rightarrow>
                        if c = 0 then Inl DivideByZero
                        else setDest m1 (args ! 0) (b mod c))
      else if op = AND then
        advance op (case readArg2 m (args ! 1) (args ! 2) of
                      Inl e \<Rightarrow> Inl e
                    | Inr (b, c, m1) \<Rightarrow> setDest m1 (args ! 0) (and b c))
      else if op = OR then
        advance op (case readArg2 m (args ! 1) (args ! 2) of
                      Inl e \<Rightarrow> Inl e
                    | Inr (b, c, m1) \<Rightarrow> setDest m1 (args ! 0) (or b c))
      else if op = NOT then
        advance op (case readArg m (args ! 1) of
                      Inl e \<Rightarrow> Inl e
                    | Inr (b, m1) \<Rightarrow> setDest m1 (args ! 0) (xor b MAX_15BIT))
      else if op = RMEM then
        advance op (case readArg m (args ! 1) of
                      Inl e \<Rightarrow> Inl e
                    | Inr (i, m1) \<Rightarrow>
                        if unat i < length (memory m1)
                        then setReg m1 (args ! 0) (memory m1 ! unat i)
                        else Inl IndexOutOfRange)
      else if op = WMEM then
        advance op (case readArg2 m (args ! 0) (args ! 1) of
                      Inl e \<Rightarrow> Inl e
                    | Inr (i, v, m1) \<Rightarrow> setMem m1 i v)
      else if op = CALL then
        (let m1 = m\<lparr>stack := Push (stack m) (nextProgramCounter m op)\<rparr> in
         case readArg m1 (args ! 0) of
           Inl e \<Rightarrow> Inl e
         | Inr (v, m2) \<Rightarrow> Inr (m2\<lparr>pc := v\<rparr>))
      else if op = RET then
        (case Pop (stack m) of
           (npc, ok, s) \<Rightarrow>
             if ok then Inr (m\<lparr>stack := s, pc := npc\<rparr>)
             else Inr (Error (m\<lparr>stack := s\<rparr>) PoppedEmptyStack))
      else if op = OUT then
        advance op (case readArg m (args ! 0) of
                      Inl e \<Rightarrow> Inl e
                    | Inr (v, m1) \<Rightarrow> Inr (m1\<lparr>stdout := stdout m1 @ [printf_c v]\<rparr>))
      else if op = IN then
        advance op
          (let m1 = refill m in
           case (if isReg (args ! 0)
                 then (case unused_input m1 of
                         [] \<Rightarrow> Inl IndexOutOfRange
                       | c # cs \<Rightarrow> setReg m1 (args ! 0) c)
                 else (case readArg m1 (args ! 0) of
                         Inl e \<Rightarrow> Inl e
                       | Inr (i, m2) \<Rightarrow>
                           (case unused_input m2 of
                              [] \<Rightarrow> Inl IndexOutOfRange
                            | c # cs \<Rightarrow> setMem m2 i c))) of
             Inl e \<Rightarrow> Inl e
           | Inr m3 \<Rightarrow> Inr (m3\<lparr>unused_input := drop 1 (unused_input m3)\<rparr>))
      else if op = NOOP then advance op (Inr m)
      else advance op (Inr (Error m UnimplementedInstruction)))"

text \<open>
  \<^verbatim>\<open>Step\<close>: the fetch \<^verbatim>\<open>m.memory[m.pc]\<close>, the operands, the instruction. A panic of the
  Go run time ends the program; it is the result \<open>Inl\<close>.
\<close>

definition Step :: "Machine \<Rightarrow> panic + Machine" where
  "Step m =
     (if unat (pc m) < length (memory m) then
        (let op = memory m ! unat (pc m) in
         case getArgs m op of
           Inl e \<Rightarrow> Inl e
         | Inr args \<Rightarrow> exec m op args)
      else Inl IndexOutOfRange)"

subsection \<open>Predicates of the properties\<close>

text \<open>
  The lengths that \<^verbatim>\<open>NewMachine\<close> gives the two slices:
  \<^verbatim>\<open>make([]uint16, 32768)\<close> and \<^verbatim>\<open>make([]uint16, NREGS, NREGS)\<close>.
\<close>

definition sized :: "Machine \<Rightarrow> bool" where
  "sized m = (length (memory m) = 32768 \<and> length (regs m) = NREGS)"

text \<open>Every register and every stack entry is a value, in the sense of \<^verbatim>\<open>isValue\<close>.\<close>

definition values_ok :: "Machine \<Rightarrow> bool" where
  "values_ok m = (list_all isValue (regs m) \<and> list_all isValue (stack m))"

section \<open>Fetching an instruction\<close>

lemmas opcode_defs =
  HALT_def SET_def PUSH_def POP_def EQ_def GT_def JMP_def JT_def JF_def ADD_def MULT_def
  MOD_def AND_def OR_def NOT_def RMEM_def WMEM_def CALL_def RET_def OUT_def IN_def NOOP_def

lemma argsForOp_le: "unat (argsForOp op) \<le> 3"
  by (simp add: argsForOp_def)

lemma unat_pc_plus:
  fixes p n :: u16
  assumes "unat p + unat n < 32768"
  shows "unat (p + 1 + n) = unat p + 1 + unat n" and "unat (p + 1) = unat p + 1"
  using assms by (simp_all add: unat_word_ariths)

lemma getArgs_sized:
  assumes "sized m" and "unat (pc m) + unat (argsForOp op) < 32768"
  shows "getArgs m op = Inr (take (unat (argsForOp op)) (drop (unat (pc m) + 1) (memory m)))"
proof (cases "0 < argsForOp op")
  case True
  have "unat (pc m + 1 + argsForOp op) = unat (pc m) + 1 + unat (argsForOp op)"
    and "unat (pc m + 1) = unat (pc m) + 1"
    using assms(2) by (rule unat_pc_plus)+
  with True assms show ?thesis
    by (simp add: getArgs_def sized_def)
next
  case False
  then have "argsForOp op = 0" by (simp add: word_gt_0)
  then show ?thesis by (simp add: getArgs_def)
qed

lemma Step_sized:
  assumes "sized m" and "op = memory m ! unat (pc m)"
    and "unat (pc m) + unat (argsForOp op) < 32768"
  shows "Step m = exec m op (take (unat (argsForOp op)) (drop (unat (pc m) + 1) (memory m)))"
  using assms getArgs_sized [OF assms(1) assms(3)]
  by (simp add: Step_def sized_def Let_def)

lemma Step_Inr_fetch:
  assumes "sized m" and "Step m = Inr m'"
  shows "unat (pc m) + unat (argsForOp (memory m ! unat (pc m))) < 32768"
proof -
  let ?op = "memory m ! unat (pc m)"
  have pc: "unat (pc m) < 32768"
    using assms by (auto simp: Step_def sized_def split: if_splits)
  show ?thesis
  proof (cases "0 < argsForOp ?op")
    case False
    then have "argsForOp ?op = 0" by (simp add: word_gt_0)
    with pc show ?thesis by simp
  next
    case True
    have n: "unat (argsForOp ?op) \<le> 3" by (rule argsForOp_le)
    have "unat (pc m + 1 + argsForOp ?op) = unat (pc m) + 1 + unat (argsForOp ?op)"
      using pc n by (simp add: unat_word_ariths)
    moreover have "unat (pc m + 1 + argsForOp ?op) \<le> 32768"
      using assms True pc
      by (auto simp: Step_def getArgs_def sized_def Let_def split: if_splits sum.splits)
    ultimately show ?thesis by simp
  qed
qed

section \<open>The opcodes\<close>

lemma opcode_neqs:
  fixes op :: u16
  assumes "21 < op"
  shows "op \<noteq> HALT" "op \<noteq> SET" "op \<noteq> PUSH" "op \<noteq> POP" "op \<noteq> EQ" "op \<noteq> GT" "op \<noteq> JMP"
    "op \<noteq> JT" "op \<noteq> JF" "op \<noteq> ADD" "op \<noteq> MULT" "op \<noteq> MOD" "op \<noteq> AND" "op \<noteq> OR"
    "op \<noteq> NOT" "op \<noteq> RMEM" "op \<noteq> WMEM" "op \<noteq> CALL" "op \<noteq> RET" "op \<noteq> OUT" "op \<noteq> IN"
    "op \<noteq> NOOP"
  using assms unfolding opcode_defs by auto

lemma opcode_cases:
  fixes op :: u16
  shows "op = HALT \<or> op = SET \<or> op = PUSH \<or> op = POP \<or> op = EQ \<or> op = GT \<or> op = JMP
    \<or> op = JT \<or> op = JF \<or> op = ADD \<or> op = MULT \<or> op = MOD \<or> op = AND \<or> op = OR
    \<or> op = NOT \<or> op = RMEM \<or> op = WMEM \<or> op = CALL \<or> op = RET \<or> op = OUT \<or> op = IN
    \<or> op = NOOP \<or> 21 < op"
proof (cases "21 < op")
  case True
  then show ?thesis by simp
next
  case False
  then have "unat op \<le> 21" by (simp add: word_less_nat_alt)
  then have "unat op = 0 \<or> unat op = 1 \<or> unat op = 2 \<or> unat op = 3 \<or> unat op = 4
    \<or> unat op = 5 \<or> unat op = 6 \<or> unat op = 7 \<or> unat op = 8 \<or> unat op = 9 \<or> unat op = 10
    \<or> unat op = 11 \<or> unat op = 12 \<or> unat op = 13 \<or> unat op = 14 \<or> unat op = 15
    \<or> unat op = 16 \<or> unat op = 17 \<or> unat op = 18 \<or> unat op = 19 \<or> unat op = 20
    \<or> unat op = 21"
    by arith
  then show ?thesis
    unfolding opcode_defs word_unat_eq_iff [of op] by simp blast
qed

text \<open>The definitions that a run of the machine on a concrete image unfolds.\<close>

lemmas run_defs = Step_def exec_def getArgs_def argsForOp_def opcode_defs readArg_def readArg2_def
  setReg_def setMem_def setDest_def isReg_def isValue_def decipherReg_def MAX_15BIT_def MAX_REG_def
  OVERFLOW_15BIT_def NREGS_def Pop_def Push_def IsEmpty_def NewStack_def Error_def Halt_def
  advance_def nextProgramCounter_def printf_c_def refill_def NewMachine_def

section \<open>Operands\<close>

lemma take_drop_1: "k + 1 < length xs \<Longrightarrow> take 1 (drop (k + 1) xs) = [xs ! (k + 1)]"
  by (simp add: take_Suc_conv_app_nth)

lemma take_drop_2:
  "k + 2 < length xs \<Longrightarrow> take 2 (drop (k + 1) xs) = [xs ! (k + 1), xs ! (k + 2)]"
  by (simp add: take_Suc_conv_app_nth numeral_2_eq_2)

lemma take_drop_3:
  "k + 3 < length xs \<Longrightarrow>
   take 3 (drop (k + 1) xs) = [xs ! (k + 1), xs ! (k + 2), xs ! (k + 3)]"
  by (simp add: take_Suc_conv_app_nth numeral_3_eq_3)

lemma Step_args0:
  assumes "sized m" and "memory m ! unat (pc m) = op" and "argsForOp op = 0"
    and "unat (pc m) < 32768"
  shows "Step m = exec m op []"
  using Step_sized [of m op] assms by simp

lemma Step_args1:
  assumes "sized m" and "memory m ! unat (pc m) = op" and "argsForOp op = 1"
    and "unat (pc m) + 1 < 32768"
  shows "Step m = exec m op [memory m ! (unat (pc m) + 1)]"
proof -
  have "Step m = exec m op (take 1 (drop (unat (pc m) + 1) (memory m)))"
    using Step_sized [of m op] assms by simp
  moreover have "unat (pc m) + 1 < length (memory m)"
    using assms by (simp add: sized_def)
  ultimately show ?thesis by (simp only: take_drop_1)
qed

lemma Step_args2:
  assumes "sized m" and "memory m ! unat (pc m) = op" and "argsForOp op = 2"
    and "unat (pc m) + 2 < 32768"
  shows "Step m = exec m op [memory m ! (unat (pc m) + 1), memory m ! (unat (pc m) + 2)]"
proof -
  have "Step m = exec m op (take 2 (drop (unat (pc m) + 1) (memory m)))"
    using Step_sized [of m op] assms by simp
  moreover have "unat (pc m) + 2 < length (memory m)"
    using assms by (simp add: sized_def)
  ultimately show ?thesis by (simp only: take_drop_2)
qed

lemma Step_args3:
  assumes "sized m" and "memory m ! unat (pc m) = op" and "argsForOp op = 3"
    and "unat (pc m) + 3 < 32768"
  shows "Step m = exec m op [memory m ! (unat (pc m) + 1), memory m ! (unat (pc m) + 2),
    memory m ! (unat (pc m) + 3)]"
proof -
  have "Step m = exec m op (take 3 (drop (unat (pc m) + 1) (memory m)))"
    using Step_sized [of m op] assms by simp
  moreover have "unat (pc m) + 3 < length (memory m)"
    using assms by (simp add: sized_def)
  ultimately show ?thesis by (simp only: take_drop_3)
qed

lemma decipherReg_unat:
  "unat (decipherReg a) = (if 32768 \<le> unat a then unat a - 32768 else unat a + 32768)"
proof -
  have eq: "decipherReg a = a + 32768"
    by (simp add: decipherReg_def MAX_15BIT_def)
  have lt: "unat a < 65536"
    using unsigned_less [of a] by simp
  have sum: "unat (decipherReg a) = (unat a + 32768) mod 65536"
    by (simp add: eq unat_word_ariths)
  show ?thesis
  proof (cases "32768 \<le> unat a")
    case True
    then have "(unat a + 32768) mod 65536 = (unat a + 32768 - 65536) mod 65536"
      by (simp add: le_mod_geq)
    also have "unat a + 32768 - 65536 = unat a - 32768"
      using True by simp
    also have "(unat a - 32768) mod 65536 = unat a - 32768"
      using lt by simp
    finally show ?thesis using True sum by simp
  next
    case False
    then show ?thesis using sum by simp
  qed
qed

lemma isReg_unat: "isReg a \<longleftrightarrow> 32768 \<le> unat a \<and> unat a \<le> 32775"
  by (auto simp: isReg_def MAX_15BIT_def MAX_REG_def word_le_nat_alt word_less_nat_alt)

lemma isValue_unat: "isValue a \<longleftrightarrow> unat a \<le> 32767"
  by (simp add: isValue_def MAX_15BIT_def word_le_nat_alt)

lemma isReg_index: "isReg a \<Longrightarrow> unat (decipherReg a) < 8"
  by (simp add: decipherReg_unat isReg_unat less_diff_conv2)

lemma readArg_sized:
  assumes "sized m"
  shows "readArg m a =
    Inr (if isValue a then a else if isReg a then regs m ! unat (decipherReg a) else 0,
         if isValue a \<or> isReg a then m else Error m (InvalidArgument a))"
proof -
  have "isReg a \<Longrightarrow> unat (decipherReg a) < length (regs m)"
    using assms isReg_index [of a] by (simp add: sized_def NREGS_def)
  then show ?thesis
    by (simp add: readArg_def)
qed

section \<open>Reading and writing\<close>

lemma Error_fields [simp]:
  "memory (Error m msg) = memory m" "regs (Error m msg) = regs m" "pc (Error m msg) = pc m"
  "stack (Error m msg) = stack m" "input (Error m msg) = input m"
  "unused_input (Error m msg) = unused_input m" "state (Error m msg) = ERROR"
  "stdout (Error m msg) = stdout m @ [Line msg]"
  by (simp_all add: Error_def)

lemma sized_Error [simp]: "sized (Error m msg) = sized m"
  by (simp add: sized_def)

lemma decipherReg_index_iff: "unat (decipherReg a) < 8 \<longleftrightarrow> isReg a"
  by (auto simp: decipherReg_unat isReg_unat less_diff_conv2)

lemma setReg_sized:
  assumes "sized m"
  shows "setReg m a v =
    (if isReg a then Inr (m\<lparr>regs := (regs m)[unat a - 32768 := v]\<rparr>) else Inl IndexOutOfRange)"
  using assms decipherReg_index_iff [of a]
  by (simp add: setReg_def sized_def NREGS_def) (simp add: decipherReg_unat isReg_unat)

lemma setMem_sized:
  assumes "sized m"
  shows "setMem m i v =
    (if isValue i then Inr (m\<lparr>memory := (memory m)[unat i := v]\<rparr>) else Inl IndexOutOfRange)"
  using assms by (auto simp: setMem_def sized_def isValue_unat)

lemma readArg_keeps:
  assumes "sized m"
  shows "\<exists>v m1. readArg m a = Inr (v, m1) \<and> sized m1 \<and> memory m1 = memory m
    \<and> regs m1 = regs m \<and> stack m1 = stack m \<and> pc m1 = pc m \<and> input m1 = input m
    \<and> unused_input m1 = unused_input m"
  using assms by (simp add: readArg_sized)

lemma exec_SET: "exec m SET args =
  advance SET (case readArg m (args ! 1) of Inl e \<Rightarrow> Inl e | Inr (v, m1) \<Rightarrow> setReg m1 (args ! 0) v)"
  by (simp add: exec_def opcode_defs)


lemma argsForOp_simps [simp]:
  "argsForOp HALT = 0" "argsForOp SET = 2" "argsForOp PUSH = 1" "argsForOp POP = 1"
  "argsForOp EQ = 3" "argsForOp GT = 3" "argsForOp JMP = 1" "argsForOp JT = 2"
  "argsForOp JF = 2" "argsForOp ADD = 3" "argsForOp MULT = 3" "argsForOp MOD = 3"
  "argsForOp AND = 3" "argsForOp OR = 3" "argsForOp NOT = 2" "argsForOp RMEM = 2"
  "argsForOp WMEM = 2" "argsForOp CALL = 1" "argsForOp RET = 0" "argsForOp OUT = 1"
  "argsForOp IN = 1" "argsForOp NOOP = 0"
  by (simp_all add: argsForOp_def opcode_defs)

lemma refill_fields [simp]:
  "memory (refill m) = memory m" "regs (refill m) = regs m" "pc (refill m) = pc m"
  "stack (refill m) = stack m" "state (refill m) = state m"
  by (simp_all add: refill_def split: list.splits)

lemma sized_refill [simp]: "sized (refill m) = sized m"
  by (simp add: sized_def)

lemma refill_empty_iff:
  "unused_input (refill m) = [] \<longleftrightarrow>
   unused_input m = [] \<and> (case input m of [] \<Rightarrow> True | l # ls \<Rightarrow> l = [])"
  by (auto simp: refill_def split: list.splits)

lemma exec_IN: "exec m IN args =
  advance IN
    (let m1 = refill m in
     case (if isReg (args ! 0)
           then (case unused_input m1 of [] \<Rightarrow> Inl IndexOutOfRange
                 | c # cs \<Rightarrow> setReg m1 (args ! 0) c)
           else (case readArg m1 (args ! 0) of Inl e \<Rightarrow> Inl e
                 | Inr (i, m2) \<Rightarrow>
                     (case unused_input m2 of [] \<Rightarrow> Inl IndexOutOfRange
                      | c # cs \<Rightarrow> setMem m2 i c))) of
       Inl e \<Rightarrow> Inl e
     | Inr m3 \<Rightarrow> Inr (m3\<lparr>unused_input := drop 1 (unused_input m3)\<rparr>))"
  by (simp add: exec_def opcode_defs)

lemma exec_CALL: "exec m CALL args =
  (let m1 = m\<lparr>stack := Push (stack m) (nextProgramCounter m CALL)\<rparr> in
   case readArg m1 (args ! 0) of Inl e \<Rightarrow> Inl e | Inr (v, m2) \<Rightarrow> Inr (m2\<lparr>pc := v\<rparr>))"
  by (simp add: exec_def opcode_defs)

lemma exec_RET: "exec m RET args =
  (case Pop (stack m) of (npc, ok, s) \<Rightarrow>
     if ok then Inr (m\<lparr>stack := s, pc := npc\<rparr>)
     else Inr (Error (m\<lparr>stack := s\<rparr>) PoppedEmptyStack))"
  by (simp add: exec_def opcode_defs)

lemma exec_OUT: "exec m OUT args =
  advance OUT (case readArg m (args ! 0) of Inl e \<Rightarrow> Inl e
    | Inr (v, m1) \<Rightarrow> Inr (m1\<lparr>stdout := stdout m1 @ [printf_c v]\<rparr>))"
  by (simp add: exec_def opcode_defs)

lemma valid_operand: "a \<le> MAX_REG \<longleftrightarrow> isValue a \<or> isReg a"
  by (auto simp: isValue_def isReg_def MAX_REG_def MAX_15BIT_def word_le_nat_alt word_less_nat_alt)

section \<open>The instructions one by one\<close>

lemma exec_HALT: "exec m HALT args = Inr (Halt m)"
  by (simp add: exec_def)

lemma exec_PUSH: "exec m PUSH args =
  advance PUSH (case readArg m (args ! 0) of Inl e \<Rightarrow> Inl e
    | Inr (v, m1) \<Rightarrow> Inr (m1\<lparr>stack := Push (stack m1) v\<rparr>))"
  unfolding exec_def opcode_defs by simp

lemma exec_POP: "exec m POP args =
  (case Pop (stack m) of (v, ok, s) \<Rightarrow>
     if \<not> ok then Inr (Error (m\<lparr>stack := s\<rparr>) PoppedEmptyStack)
     else advance POP (setDest (m\<lparr>stack := s\<rparr>) (args ! 0) v))"
  unfolding exec_def opcode_defs by simp

lemma exec_EQ: "exec m EQ args =
  advance EQ (case readArg2 m (args ! 1) (args ! 2) of Inl e \<Rightarrow> Inl e
    | Inr (b, c, m1) \<Rightarrow> setDest m1 (args ! 0) (if b = c then 1 else 0))"
  unfolding exec_def opcode_defs by simp

lemma exec_GT: "exec m GT args =
  advance GT (case readArg2 m (args ! 1) (args ! 2) of Inl e \<Rightarrow> Inl e
    | Inr (b, c, m1) \<Rightarrow> setDest m1 (args ! 0) (if b > c then 1 else 0))"
  unfolding exec_def opcode_defs by simp

lemma exec_JMP: "exec m JMP args =
  (case readArg m (args ! 0) of Inl e \<Rightarrow> Inl e | Inr (v, m1) \<Rightarrow> Inr (m1\<lparr>pc := v\<rparr>))"
  unfolding exec_def opcode_defs by simp

lemma exec_JT: "exec m JT args =
  (case readArg m (args ! 0) of Inl e \<Rightarrow> Inl e
   | Inr (a, m1) \<Rightarrow>
       if a \<noteq> 0 then (case readArg m1 (args ! 1) of Inl e \<Rightarrow> Inl e
                        | Inr (v, m2) \<Rightarrow> Inr (m2\<lparr>pc := v\<rparr>))
       else advance JT (Inr m1))"
  unfolding exec_def opcode_defs by simp

lemma exec_JF: "exec m JF args =
  (case readArg m (args ! 0) of Inl e \<Rightarrow> Inl e
   | Inr (a, m1) \<Rightarrow>
       if a = 0 then (case readArg m1 (args ! 1) of Inl e \<Rightarrow> Inl e
                      | Inr (v, m2) \<Rightarrow> Inr (m2\<lparr>pc := v\<rparr>))
       else advance JF (Inr m1))"
  unfolding exec_def opcode_defs by simp

lemma exec_ADD: "exec m ADD args =
  advance ADD (case readArg2 m (args ! 1) (args ! 2) of Inl e \<Rightarrow> Inl e
    | Inr (b, c, m1) \<Rightarrow> setDest m1 (args ! 0) ((b + c) mod OVERFLOW_15BIT))"
  unfolding exec_def opcode_defs by simp

lemma exec_MULT: "exec m MULT args =
  advance MULT (case readArg2 m (args ! 1) (args ! 2) of Inl e \<Rightarrow> Inl e
    | Inr (b, c, m1) \<Rightarrow> setDest m1 (args ! 0) ((b * c) mod OVERFLOW_15BIT))"
  unfolding exec_def opcode_defs by simp

lemma exec_MOD: "exec m MOD args =
  advance MOD (case readArg2 m (args ! 1) (args ! 2) of Inl e \<Rightarrow> Inl e
    | Inr (b, c, m1) \<Rightarrow> if c = 0 then Inl DivideByZero else setDest m1 (args ! 0) (b mod c))"
  unfolding exec_def opcode_defs by simp

lemma exec_AND: "exec m AND args =
  advance AND (case readArg2 m (args ! 1) (args ! 2) of Inl e \<Rightarrow> Inl e
    | Inr (b, c, m1) \<Rightarrow> setDest m1 (args ! 0) (and b c))"
  unfolding exec_def opcode_defs by simp

lemma exec_OR: "exec m OR args =
  advance OR (case readArg2 m (args ! 1) (args ! 2) of Inl e \<Rightarrow> Inl e
    | Inr (b, c, m1) \<Rightarrow> setDest m1 (args ! 0) (or b c))"
  unfolding exec_def opcode_defs by simp

lemma exec_NOT: "exec m NOT args =
  advance NOT (case readArg m (args ! 1) of Inl e \<Rightarrow> Inl e
    | Inr (b, m1) \<Rightarrow> setDest m1 (args ! 0) (xor b MAX_15BIT))"
  unfolding exec_def opcode_defs by simp

lemma exec_WMEM: "exec m WMEM args =
  advance WMEM (case readArg2 m (args ! 0) (args ! 1) of Inl e \<Rightarrow> Inl e
    | Inr (i, v, m1) \<Rightarrow> setMem m1 i v)"
  unfolding exec_def opcode_defs by simp

lemma exec_NOOP: "exec m NOOP args = advance NOOP (Inr m)"
  unfolding exec_def opcode_defs by simp

lemma exec_default:
  assumes "21 < op"
  shows "exec m op args = advance op (Inr (Error m UnimplementedInstruction))"
  using opcode_neqs [OF assms] by (simp add: exec_def)

lemma argsForOp_default: "21 < op \<Longrightarrow> argsForOp op = 0"
  using opcode_neqs [of op] by (simp add: argsForOp_def)

lemma unat_mod_15bit:
  fixes w :: u16
  shows "unat (w mod OVERFLOW_15BIT) = unat w mod 32768"
  by (simp add: OVERFLOW_15BIT_def unat_mod_distrib)






lemma Pop_nonempty: "s \<noteq> [] \<Longrightarrow> Pop s = (last s, True, butlast s)"
  by (simp add: Pop_def IsEmpty_def Let_def last_conv_nth butlast_conv_take)

section \<open>The run state\<close>










lemma advance_Inl [simp]: "advance op (Inl e) = Inl e"
  by (simp add: advance_def)






section \<open>Values of 15 bits\<close>

lemma isValue_uint: "isValue x \<longleftrightarrow> uint x < 2 ^ 15"
proof -
  have "isValue x \<longleftrightarrow> uint x \<le> 32767"
    by (simp add: isValue_def MAX_15BIT_def word_le_def)
  also have "\<dots> \<longleftrightarrow> uint x < 32768" by linarith
  finally show ?thesis by simp
qed

lemma isValue_or:
  assumes "isValue b" and "isValue c"
  shows "isValue (or b c)"
proof -
  have "uint b < 2 ^ 15" and "uint c < 2 ^ 15"
    using assms by (simp_all only: isValue_uint)
  then have "or (uint b) (uint c) < 2 ^ 15"
    by (intro OR_upper uint_ge_0)
  then show ?thesis by (simp only: isValue_uint uint_or)
qed

lemma isValue_xor:
  assumes "isValue b"
  shows "isValue (xor b MAX_15BIT)"
proof -
  have "isValue MAX_15BIT" by (simp add: isValue_def)
  then have "uint b < 2 ^ 15" and "uint MAX_15BIT < 2 ^ 15"
    using assms by (simp_all only: isValue_uint)
  then have "xor (uint b) (uint MAX_15BIT) < 2 ^ 15"
    by (intro XOR_upper uint_ge_0)
  then show ?thesis by (simp only: isValue_uint uint_xor)
qed

lemma isValue_and: "isValue b \<Longrightarrow> isValue (and b c)"
  unfolding isValue_def by (rule order_trans [OF word_and_le2])

lemma isValue_mod: "isValue b \<Longrightarrow> isValue (b mod c)"
  by (simp add: isValue_unat unat_mod_distrib order_trans [OF mod_less_eq_dividend])

lemma isValue_mod_15bit: "isValue (w mod OVERFLOW_15BIT)"
proof -
  have "unat w mod 32768 < 32768" by simp
  then show ?thesis by (simp add: isValue_unat unat_mod_15bit)
qed

lemma isValue_0_1 [simp]: "isValue 0" "isValue 1"
  by (simp_all add: isValue_def MAX_15BIT_def)

lemma list_all_update: "list_all P xs \<Longrightarrow> P v \<Longrightarrow> list_all P (xs[i := v])"
  using set_update_subset_insert [of xs i v] by (auto simp: list_all_iff)

lemma update_frame: "P v \<Longrightarrow> xs[k := v] ! i \<noteq> xs ! i \<Longrightarrow> P (xs[k := v] ! i)"
  by (cases "k < length xs"; cases "i = k") (auto simp: list_update_beyond)

lemma list_all_butlast: "list_all P xs \<Longrightarrow> list_all P (butlast xs)"
  by (auto simp: list_all_iff dest: in_set_butlastD)

lemma list_all_last: "list_all P xs \<Longrightarrow> xs \<noteq> [] \<Longrightarrow> P (last xs)"
  by (simp add: list_all_iff)


lemma readArg_ok:
  assumes "sized m" and "values_ok m"
  shows "\<exists>v m1. readArg m a = Inr (v, m1) \<and> isValue v \<and> sized m1 \<and> values_ok m1
    \<and> memory m1 = memory m \<and> stack m1 = stack m \<and> pc m1 = pc m"
proof -
  have "isReg a \<Longrightarrow> isValue (regs m ! unat (decipherReg a))"
    using assms isReg_index [of a]
    by (simp add: values_ok_def sized_def NREGS_def list_all_length)
  then show ?thesis
    using assms by (simp add: readArg_sized values_ok_def)
qed

lemma readArg2_ok:
  assumes "sized m" and "values_ok m"
  shows "\<exists>b c m1. readArg2 m x y = Inr (b, c, m1) \<and> isValue b \<and> isValue c \<and> sized m1
    \<and> values_ok m1 \<and> memory m1 = memory m \<and> stack m1 = stack m \<and> pc m1 = pc m"
proof -
  obtain b m1 where 1: "readArg m x = Inr (b, m1)" "isValue b" "sized m1" "values_ok m1"
    "memory m1 = memory m" "stack m1 = stack m" "pc m1 = pc m"
    using readArg_ok [OF assms, of x] by blast
  obtain c m2 where 2: "readArg m1 y = Inr (c, m2)" "isValue c" "sized m2" "values_ok m2"
    "memory m2 = memory m1" "stack m2 = stack m1" "pc m2 = pc m1"
    using readArg_ok [OF 1(3) 1(4), of y] by blast
  show ?thesis using 1 2 by (simp add: readArg2_def)
qed

text \<open>What a step keeps: the values, the sizes, and values in the memory cells it changes.\<close>

lemma advance_setReg_ok:
  assumes "sized m1" and "values_ok m1" and "isValue v"
    and "advance op (setReg m1 d v) = Inr m'"
  shows "values_ok m' \<and> sized m' \<and> memory m' = memory m1"
  using assms(2,3,4) assms(1)
  by (auto simp: setReg_sized [OF assms(1)] advance_def values_ok_def sized_def list_all_update
      split: if_splits)

lemma advance_setMem_ok:
  assumes "sized m1" and "values_ok m1" and "isValue v"
    and "advance op (setMem m1 d v) = Inr m'"
  shows "values_ok m' \<and> sized m'
    \<and> (\<forall>i<32768. memory m' ! i \<noteq> memory m1 ! i \<longrightarrow> isValue (memory m' ! i))"
  using assms(2,3,4) assms(1)
  by (auto simp: setMem_sized [OF assms(1)] advance_def values_ok_def sized_def
      intro: update_frame split: if_splits)

lemma advance_setDest_ok:
  assumes "sized m1" and "values_ok m1" and "isValue v"
    and "advance op (setDest m1 d v) = Inr m'"
  shows "values_ok m' \<and> sized m'
    \<and> (\<forall>i<32768. memory m' ! i \<noteq> memory m1 ! i \<longrightarrow> isValue (memory m' ! i))"
proof (cases "isReg d")
  case True
  then show ?thesis
    using advance_setReg_ok [OF assms(1,2,3), of op d m'] assms(4) by (simp add: setDest_def)
next
  case False
  then show ?thesis
    using advance_setMem_ok [OF assms(1,2,3), of op d m'] assms(4) by (simp add: setDest_def)
qed

section \<open>The claims\<close>

subsection \<open>C1: RET on an empty stack\<close>

text \<open>
  C1 says that a step whose instruction is RET (opcode 18) and whose stack is empty moves the
  run state to HALTED, a normal end of the program, and not to ERROR. The source goes the
  other way: on the image \<open>[18]\<close>, whose stack is empty, the RET case of \<^verbatim>\<open>Step\<close> calls
  \<^verbatim>\<open>Error\<close>, and the run state after the step is ERROR.
\<close>

theorem ret_on_empty_stack_errors:
  "Step (NewMachine [18] inp) = Inr (Error (NewMachine [18] inp) PoppedEmptyStack)
   \<and> state (Error (NewMachine [18] inp) PoppedEmptyStack) = ERROR
   \<and> stack (NewMachine [18] inp) = []
   \<and> RET = 18"
  by (simp add: run_defs)

subsection \<open>C2: an invalid operand\<close>




subsection \<open>C3: the range of the stored values\<close>

text \<open>
  C3 says that every value that an instruction stores into a memory cell or a register is in
  0..32767, so that every register holds such a value after every step. The image is copied
  into the memory as it is, and RMEM copies a memory cell as it is: on the image
  \<open>[15, 32768, 3, 65535]\<close> the first step of the new machine stores 65535, the content of
  the cell 3, into register 0.
\<close>

theorem rmem_register_above_15bit_counterexample:
  "Step (NewMachine [15, 32768, 3, 65535] [])
     = Inr ((NewMachine [15, 32768, 3, 65535] [])
             \<lparr>regs := (regs (NewMachine [15, 32768, 3, 65535] []))[0 := 65535], pc := 3\<rparr>)
   \<and> regs ((NewMachine [15, 32768, 3, 65535] [])
             \<lparr>regs := (regs (NewMachine [15, 32768, 3, 65535] []))[0 := 65535], pc := 3\<rparr>) ! 0
       = 65535
   \<and> \<not> isValue 65535
   \<and> unat (65535 :: u16) = 65535"
  by (simp add: run_defs)

text \<open>
  C3 as amended. On a machine whose registers and stack entries all are in 0..32767, a step
  of any instruction but RMEM and IN, with the return address of a CALL at most 32767,
  leaves every register and every stack entry in 0..32767, and every memory cell that the
  step has changed holds a value in 0..32767. RMEM and IN store the memory cell and the
  character of the input as they are, and CALL pushes the return address as it is.
\<close>

theorem values_stay_15bit:
  assumes "sized m" and "values_ok m" and "memory m ! unat (pc m) = op"
    and "op \<noteq> RMEM" and "op \<noteq> IN" and "op = CALL \<longrightarrow> unat (pc m) + 2 \<le> 32767"
    and "Step m = Inr m'"
  shows "values_ok m' \<and> sized m'
    \<and> (\<forall>i<32768. memory m' ! i \<noteq> memory m ! i \<longrightarrow> isValue (memory m' ! i))"
proof -
  let ?p = "unat (pc m)"
  let ?a = "memory m ! (?p + 1)"
  let ?b = "memory m ! (?p + 2)"
  let ?c = "memory m ! (?p + 3)"
  have fetch: "?p + unat (argsForOp op) < 32768"
    using Step_Inr_fetch [OF assms(1) assms(7)] assms(3) by simp
  have zero: "argsForOp op = 0 \<Longrightarrow> exec m op [] = Inr m'"
    using Step_args0 [OF assms(1) assms(3)] fetch assms(7) by simp
  have one: "argsForOp op = 1 \<Longrightarrow> exec m op [?a] = Inr m'"
    using Step_args1 [OF assms(1) assms(3)] fetch assms(7) by simp
  have two: "argsForOp op = 2 \<Longrightarrow> exec m op [?a, ?b] = Inr m'"
    using Step_args2 [OF assms(1) assms(3)] fetch assms(7) by simp
  have three: "argsForOp op = 3 \<Longrightarrow> exec m op [?a, ?b, ?c] = Inr m'"
    using Step_args3 [OF assms(1) assms(3)] fetch assms(7) by simp
  obtain v1 m1 where r1: "readArg m ?a = Inr (v1, m1)" and k1: "isValue v1" "sized m1"
    "values_ok m1" "memory m1 = memory m" "stack m1 = stack m" "pc m1 = pc m"
    using readArg_ok [OF assms(1,2), of ?a] by blast
  obtain v2 m2 where r2: "readArg m ?b = Inr (v2, m2)" and k2: "isValue v2" "sized m2"
    "values_ok m2" "memory m2 = memory m"
    using readArg_ok [OF assms(1,2), of ?b] by blast
  obtain b c m3 where r3: "readArg2 m ?b ?c = Inr (b, c, m3)" and k3: "isValue b" "isValue c"
    "sized m3" "values_ok m3" "memory m3 = memory m"
    using readArg2_ok [OF assms(1,2), of ?b ?c] by blast
  obtain w1 m4 where r4: "readArg m1 ?b = Inr (w1, m4)" and k4: "isValue w1" "sized m4"
    "values_ok m4" "memory m4 = memory m"
    using readArg_ok [OF k1(2,3), of ?b] k1(4) by auto
  have same: "values_ok n \<Longrightarrow> sized n \<Longrightarrow> memory n = memory m \<Longrightarrow> n = m' \<Longrightarrow> ?thesis" for n
    by simp
  have dest: "?thesis"
    if "advance op (setDest n ?a v) = Inr m'" and "isValue v" and "sized n" and "values_ok n"
      and "memory n = memory m" for n v
    using advance_setDest_ok [OF that(3,4,2,1)] that(5) by simp
  have cHALT: ?thesis if "op = HALT"
    using zero that assms(1,2) by (auto simp: exec_HALT Halt_def values_ok_def sized_def)
  have cNOOP: ?thesis if "op = NOOP"
    using zero that assms(1,2) by (auto simp: exec_NOOP advance_def values_ok_def sized_def)
  have cDEF: ?thesis if "21 < op"
    using zero that assms(1,2) argsForOp_default [OF that]
    by (auto simp: exec_default advance_def values_ok_def sized_def)
  have cRET: ?thesis if "op = RET"
  proof (cases "stack m = []")
    case True
    then show ?thesis
      using zero that assms(1,2)
      by (auto simp: exec_RET Pop_def IsEmpty_def values_ok_def sized_def)
  next
    case False
    then show ?thesis
      using zero that assms(1,2)
      by (auto simp: exec_RET Pop_nonempty values_ok_def sized_def list_all_butlast)
  qed
  have cSET: ?thesis if "op = SET"
  proof -
    have "advance SET (setReg m2 ?a v2) = Inr m'"
      using two that r2 by (simp add: exec_SET)
    from advance_setReg_ok [OF k2(2,3,1) this] show ?thesis using k2(4) by simp
  qed
  have cPUSH: ?thesis if "op = PUSH"
    using one that r1 k1
    by (auto simp: exec_PUSH advance_def Push_def values_ok_def sized_def)
  have cPOP: ?thesis if "op = POP"
  proof (cases "stack m = []")
    case True
    then show ?thesis
      using one that assms(1,2)
      by (auto simp: exec_POP Pop_def IsEmpty_def values_ok_def sized_def)
  next
    case False
    let ?n = "m\<lparr>stack := butlast (stack m)\<rparr>"
    have "advance POP (setDest ?n ?a (last (stack m))) = Inr m'"
      using one that False by (simp add: exec_POP Pop_nonempty)
    moreover have "isValue (last (stack m))"
      using assms(2) False by (simp add: values_ok_def list_all_last)
    moreover have "sized ?n" "values_ok ?n"
      using assms(1,2) by (simp_all add: sized_def values_ok_def list_all_butlast)
    ultimately show ?thesis using dest [of ?n "last (stack m)"] that by simp
  qed
  have cEQ: ?thesis if "op = EQ"
  proof -
    have "advance EQ (setDest m3 ?a (if b = c then 1 else 0)) = Inr m'"
      using three that r3 by (simp add: exec_EQ)
    then show ?thesis using dest [of m3 "if b = c then 1 else 0"] that k3 by simp
  qed
  have cGT: ?thesis if "op = GT"
  proof -
    have "advance GT (setDest m3 ?a (if b > c then 1 else 0)) = Inr m'"
      using three that r3 by (simp add: exec_GT)
    then show ?thesis using dest [of m3 "if b > c then 1 else 0"] that k3 by simp
  qed
  have cADD: ?thesis if "op = ADD"
  proof -
    have "advance ADD (setDest m3 ?a ((b + c) mod OVERFLOW_15BIT)) = Inr m'"
      using three that r3 by (simp add: exec_ADD)
    then show ?thesis
      using dest [of m3 "(b + c) mod OVERFLOW_15BIT"] that k3 by (simp add: isValue_mod_15bit)
  qed
  have cMULT: ?thesis if "op = MULT"
  proof -
    have "advance MULT (setDest m3 ?a ((b * c) mod OVERFLOW_15BIT)) = Inr m'"
      using three that r3 by (simp add: exec_MULT)
    then show ?thesis
      using dest [of m3 "(b * c) mod OVERFLOW_15BIT"] that k3 by (simp add: isValue_mod_15bit)
  qed
  have cMOD: ?thesis if "op = MOD"
  proof -
    have "advance MOD (setDest m3 ?a (b mod c)) = Inr m'"
      using three that r3 by (auto simp: exec_MOD split: if_splits)
    then show ?thesis using dest [of m3 "b mod c"] that k3 by (simp add: isValue_mod)
  qed
  have cAND: ?thesis if "op = AND"
  proof -
    have "advance AND (setDest m3 ?a (and b c)) = Inr m'"
      using three that r3 by (simp add: exec_AND)
    then show ?thesis using dest [of m3 "and b c"] that k3 by (simp add: isValue_and)
  qed
  have cOR: ?thesis if "op = OR"
  proof -
    have "advance OR (setDest m3 ?a (or b c)) = Inr m'"
      using three that r3 by (simp add: exec_OR)
    then show ?thesis using dest [of m3 "or b c"] that k3 by (simp add: isValue_or)
  qed
  have cNOT: ?thesis if "op = NOT"
  proof -
    have "advance NOT (setDest m2 ?a (xor v2 MAX_15BIT)) = Inr m'"
      using two that r2 by (simp add: exec_NOT)
    then show ?thesis using dest [of m2 "xor v2 MAX_15BIT"] that k2 by (simp add: isValue_xor)
  qed
  have cJMP: ?thesis if "op = JMP"
    using one that r1 k1 by (auto simp: exec_JMP values_ok_def sized_def)
  have cJT: ?thesis if "op = JT"
    using two that r1 r4 k1 k4
    by (auto simp: exec_JT advance_def values_ok_def sized_def split: if_splits)
  have cJF: ?thesis if "op = JF"
    using two that r1 r4 k1 k4
    by (auto simp: exec_JF advance_def values_ok_def sized_def split: if_splits)
  have cWMEM: ?thesis if "op = WMEM"
  proof -
    have "readArg2 m ?a ?b = Inr (v1, w1, m4)"
      using r1 r4 by (simp add: readArg2_def)
    then have "advance WMEM (setMem m4 v1 w1) = Inr m'"
      using two that by (simp add: exec_WMEM)
    from advance_setMem_ok [OF k4(2,3,1) this] show ?thesis using k4(4) by simp
  qed
  have cOUT: ?thesis if "op = OUT"
    using one that r1 k1 by (auto simp: exec_OUT advance_def values_ok_def sized_def)
  have cCALL: ?thesis if "op = CALL"
  proof -
    let ?n = "m\<lparr>stack := Push (stack m) (nextProgramCounter m CALL)\<rparr>"
    have "unat (pc m + 2) = unat (pc m) + 2"
      using assms(6) that by (simp add: unat_word_ariths)
    then have "isValue (pc m + 2)"
      using assms(6) that by (simp add: isValue_unat)
    moreover have "nextProgramCounter m CALL = pc m + 2"
      by (simp add: nextProgramCounter_def)
    ultimately have n: "sized ?n" "values_ok ?n"
      using assms(1,2)
      by (simp_all add: sized_def values_ok_def Push_def)
    obtain v n' where "readArg ?n ?a = Inr (v, n')" "sized n'" "values_ok n'"
      "memory n' = memory m"
      using readArg_ok [OF n, of ?a] by auto
    then show ?thesis
      using one that by (auto simp: exec_CALL Let_def values_ok_def sized_def)
  qed
  have cRMEM: ?thesis if "op = RMEM"
    using that assms(4) by simp
  have cIN: ?thesis if "op = IN"
    using that assms(5) by simp
  from opcode_cases [of op] show ?thesis
    by (elim disjE)
       (erule cHALT cSET cPUSH cPOP cEQ cGT cJMP cJT cJF cADD cMULT cMOD cAND cOR cNOT cRMEM
          cWMEM cCALL cRET cOUT cIN cNOOP cDEF)+
qed

text \<open>
  Witness of C3 as amended: ADD of \<open>32767 + 32767\<close> into register 0 stores 32766.
\<close>

theorem values_stay_15bit_witness:
  "sized (NewMachine [9, 32768, 32767, 32767] [])
   \<and> values_ok (NewMachine [9, 32768, 32767, 32767] [])
   \<and> memory (NewMachine [9, 32768, 32767, 32767] []) ! unat (pc (NewMachine [9, 32768, 32767, 32767] [])) = ADD
   \<and> Step (NewMachine [9, 32768, 32767, 32767] [])
       = Inr ((NewMachine [9, 32768, 32767, 32767] [])
               \<lparr>regs := (regs (NewMachine [9, 32768, 32767, 32767] []))[0 := 32766], pc := 4\<rparr>)
   \<and> values_ok ((NewMachine [9, 32768, 32767, 32767] [])
               \<lparr>regs := (regs (NewMachine [9, 32768, 32767, 32767] []))[0 := 32766], pc := 4\<rparr>)"
proof -
  let ?m = "NewMachine [9, 32768, 32767, 32767] []"
  let ?m' = "?m\<lparr>regs := (regs ?m)[0 := 32766], pc := 4\<rparr>"
  have h1: "sized ?m" by (simp add: sized_def NewMachine_def NREGS_def)
  have h2: "values_ok ?m"
    by (simp add: values_ok_def NewMachine_def NewStack_def list_all_iff)
  have h3: "memory ?m ! unat (pc ?m) = ADD" by (simp add: NewMachine_def ADD_def)
  have h4: "ADD \<noteq> RMEM" "ADD \<noteq> IN" by (simp_all add: opcode_defs)
  have h5: "ADD = CALL \<longrightarrow> unat (pc ?m) + 2 \<le> 32767" by (simp add: opcode_defs)
  have h6: "Step ?m = Inr ?m'" by (simp add: run_defs)
  from values_stay_15bit [OF h1 h2 h3 h4 h5 h6]
  have "values_ok ?m'" by simp
  with h1 h2 h3 h6 show ?thesis by simp
qed

subsection \<open>C4: the target of a write\<close>




subsection \<open>C5: OUT\<close>

text \<open>
  C5 says that OUT writes the character whose code is the low byte of the value of its
  operand. The source passes the whole value to the verb \<^verbatim>\<open>%c\<close>: on the image
  \<open>[19, 300]\<close> the step writes the character with the code point 300, and not the one with
  the code 44, the low byte of 300.
\<close>

theorem out_low_byte_counterexample:
  "Step (NewMachine [19, 300] []) = Inr ((NewMachine [19, 300] [])\<lparr>stdout := [Char 300], pc := 2\<rparr>)
   \<and> stdout (NewMachine [19, 300] []) = []
   \<and> (300 :: nat) mod 256 = 44
   \<and> Char 300 \<noteq> Char (300 mod 256)"
  by (simp add: run_defs)

text \<open>
  C5 as amended: an OUT whose operand is valid (at most 32775) appends exactly one character
  to the standard output, after everything written before; its code point is the whole value
  \<open>v\<close> of the operand, for every \<open>v\<close> below the surrogates (so for every \<open>v\<close> up to 32767).
  The step writes nothing else and continues at the next instruction.
\<close>

theorem out_emits_one_character:
  assumes "sized m" and "memory m ! unat (pc m) = OUT" and "unat (pc m) + 1 < 32768"
    and "a = memory m ! (unat (pc m) + 1)" and "a \<le> MAX_REG"
    and "v = (if isValue a then a else regs m ! unat (decipherReg a))"
  shows "readArg m a = Inr (v, m)
    \<and> Step m = Inr (m\<lparr>stdout := stdout m @ [printf_c v], pc := pc m + 2\<rparr>)
    \<and> (unat v < 55296 \<longrightarrow> printf_c v = Char (unat v))"
proof -
  have step: "Step m = exec m OUT [a]"
    using Step_args1 [OF assms(1) assms(2) _ assms(3)] assms(4) by simp
  have valid: "isValue a \<or> isReg a" using assms(5) by (simp add: valid_operand)
  have r: "readArg m a = Inr (v, m)"
    using valid assms(6) by (auto simp: readArg_sized [OF assms(1)])
  have "Step m = Inr (m\<lparr>stdout := stdout m @ [printf_c v], pc := pc m + 2\<rparr>)"
    using step r by (simp add: exec_OUT advance_def nextProgramCounter_def)
  then show ?thesis using r by (simp add: printf_c_def)
qed

text \<open>Witness of C5 as amended: the image \<open>[19, 65]\<close> writes the character 65.\<close>

theorem out_emits_one_character_witness:
  "sized (NewMachine [19, 65] [])
   \<and> memory (NewMachine [19, 65] []) ! unat (pc (NewMachine [19, 65] [])) = OUT
   \<and> (65 :: u16) \<le> MAX_REG
   \<and> Step (NewMachine [19, 65] []) = Inr ((NewMachine [19, 65] [])\<lparr>stdout := [Char 65], pc := 2\<rparr>)"
proof -
  let ?m = "NewMachine [19, 65] []"
  have h1: "sized ?m" by (simp add: sized_def NewMachine_def NREGS_def)
  have h2: "memory ?m ! unat (pc ?m) = OUT" by (simp add: NewMachine_def OUT_def)
  have h3: "unat (pc ?m) + 1 < 32768" by (simp add: NewMachine_def)
  have h4: "65 = memory ?m ! (unat (pc ?m) + 1)" by (simp add: NewMachine_def)
  have h5: "(65 :: u16) \<le> MAX_REG" by (simp add: MAX_REG_def MAX_15BIT_def)
  have h6: "65 = (if isValue 65 then 65 else regs ?m ! unat (decipherReg 65))"
    by (simp add: isValue_def MAX_15BIT_def)
  have f: "stdout ?m = []" "pc ?m = 0" by (simp_all add: NewMachine_def)
  from out_emits_one_character [OF h1 h2 h3 h4 h5 h6]
  have "Step ?m = Inr (?m\<lparr>stdout := [Char 65], pc := 2\<rparr>)"
    by (simp add: f)
  with h1 h2 h5 show ?thesis by simp
qed

subsection \<open>C6: ADD and MULT\<close>



subsection \<open>C7: CALL and RET\<close>

text \<open>
  C7: a CALL at the address \<open>p\<close> whose operand is valid (at most 32775) pushes \<open>p + 2\<close>, the
  address of the instruction after the CALL (the sum does not wrap around), and jumps to the
  value of its operand. Any later machine whose stack is the one the CALL left, and whose
  instruction is RET, pops that entry and continues at \<open>p + 2\<close>, with the stack as it was
  before the CALL.
\<close>

theorem call_ret_round_trip:
  assumes "sized m" and "memory m ! unat (pc m) = CALL" and "unat (pc m) + 1 < 32768"
    and "a = memory m ! (unat (pc m) + 1)" and "a \<le> MAX_REG"
  shows "Step m = Inr (m\<lparr>stack := stack m @ [pc m + 2],
                         pc := (if isValue a then a else regs m ! unat (decipherReg a))\<rparr>)
    \<and> unat (pc m + 2) = unat (pc m) + 2
    \<and> (\<forall>m2. stack m2 = stack m @ [pc m + 2] \<and> unat (pc m2) < length (memory m2)
            \<and> memory m2 ! unat (pc m2) = RET
          \<longrightarrow> Step m2 = Inr (m2\<lparr>stack := stack m, pc := pc m + 2\<rparr>))"
proof -
  let ?m1 = "m\<lparr>stack := Push (stack m) (nextProgramCounter m CALL)\<rparr>"
  have step: "Step m = exec m CALL [a]"
    using Step_args1 [OF assms(1) assms(2) _ assms(3)] assms(4) by simp
  have s1: "sized ?m1" using assms(1) by (simp add: sized_def)
  have valid: "isValue a \<or> isReg a" using assms(5) by (simp add: valid_operand)
  have "Step m = Inr (?m1\<lparr>pc := (if isValue a then a else regs m ! unat (decipherReg a))\<rparr>)"
    using step valid by (auto simp: exec_CALL Let_def readArg_sized [OF s1])
  then have call: "Step m = Inr (m\<lparr>stack := stack m @ [pc m + 2],
      pc := (if isValue a then a else regs m ! unat (decipherReg a))\<rparr>)"
    by (simp add: Push_def nextProgramCounter_def)
  have next_pc: "unat (pc m + 2) = unat (pc m) + 2"
    using assms(3) by (simp add: unat_word_ariths)
  have ret: "Step m2 = Inr (m2\<lparr>stack := stack m, pc := pc m + 2\<rparr>)"
    if "stack m2 = stack m @ [pc m + 2]" and "unat (pc m2) < length (memory m2)"
      and "memory m2 ! unat (pc m2) = RET" for m2
    using that by (simp add: Step_def getArgs_def exec_RET Pop_def IsEmpty_def)
  show ?thesis using call next_pc ret by blast
qed

text \<open>
  Witness of C7: the image \<open>[17, 3, 0, 18]\<close> calls the address 3, where a RET stands; the
  CALL pushes 2 and the RET returns to 2.
\<close>

theorem call_ret_round_trip_witness:
  "sized (NewMachine [17, 3, 0, 18] [])
   \<and> memory (NewMachine [17, 3, 0, 18] []) ! unat (pc (NewMachine [17, 3, 0, 18] [])) = CALL
   \<and> (3 :: u16) \<le> MAX_REG
   \<and> Step (NewMachine [17, 3, 0, 18] []) = Inr ((NewMachine [17, 3, 0, 18] [])\<lparr>stack := [2], pc := 3\<rparr>)
   \<and> memory ((NewMachine [17, 3, 0, 18] [])\<lparr>stack := [2], pc := 3\<rparr>) ! 3 = RET
   \<and> Step ((NewMachine [17, 3, 0, 18] [])\<lparr>stack := [2], pc := 3\<rparr>)
       = Inr ((NewMachine [17, 3, 0, 18] [])\<lparr>stack := [], pc := 2\<rparr>)"
proof -
  let ?m = "NewMachine [17, 3, 0, 18] []"
  let ?m2 = "?m\<lparr>stack := [2], pc := 3\<rparr>"
  have h1: "sized ?m" by (simp add: sized_def NewMachine_def NREGS_def)
  have h2: "memory ?m ! unat (pc ?m) = CALL" by (simp add: NewMachine_def CALL_def)
  have h3: "unat (pc ?m) + 1 < 32768" by (simp add: NewMachine_def)
  have h4: "3 = memory ?m ! (unat (pc ?m) + 1)" by (simp add: NewMachine_def)
  have h5: "(3 :: u16) \<le> MAX_REG" by (simp add: MAX_REG_def MAX_15BIT_def)
  have f: "stack ?m = []" "pc ?m = 0" "isValue 3"
    by (simp_all add: NewMachine_def NewStack_def isValue_def MAX_15BIT_def)
  have g: "stack ?m2 = stack ?m @ [pc ?m + 2] \<and> unat (pc ?m2) < length (memory ?m2)
      \<and> memory ?m2 ! unat (pc ?m2) = RET"
    by (simp add: NewMachine_def NewStack_def RET_def)
  have r: "memory ?m2 ! 3 = RET" by (simp add: NewMachine_def RET_def)
  note t = call_ret_round_trip [OF h1 h2 h3 h4 h5]
  from t have "Step ?m = Inr ?m2" by (simp add: f)
  moreover from t g have "Step ?m2 = Inr (?m2\<lparr>stack := stack ?m, pc := pc ?m + 2\<rparr>)"
    by blast
  ultimately show ?thesis using h1 h2 h5 r by (simp add: f)
qed

subsection \<open>C8: POP on an empty stack\<close>

text \<open>
  C8: the machine made from the image \<open>[3, 32768]\<close> (POP into register 0) has an empty stack,
  and its first step ends in the run state ERROR with the message of the empty stack; no
  register is written: all eight registers are zero before and after the step.
\<close>

theorem pop_on_empty_stack_errors:
  "Step (NewMachine [3, 32768] inp) = Inr (Error (NewMachine [3, 32768] inp) PoppedEmptyStack)
   \<and> state (Error (NewMachine [3, 32768] inp) PoppedEmptyStack) = ERROR
   \<and> stdout (Error (NewMachine [3, 32768] inp) PoppedEmptyStack) = [Line PoppedEmptyStack]
   \<and> regs (Error (NewMachine [3, 32768] inp) PoppedEmptyStack) = replicate 8 0
   \<and> regs (NewMachine [3, 32768] inp) = replicate 8 0
   \<and> stack (NewMachine [3, 32768] inp) = []"
  by (simp add: run_defs)

subsection \<open>C9: SET and RMEM write registers only\<close>



subsection \<open>C10: IN at the end of the input\<close>

text \<open>
  C10: when IN runs with an empty buffer of pending input and the refill brings no character
  (the input is at its end, or \<^verbatim>\<open>ReadString\<close> returns the empty string), the buffer is
  still empty when the step reads its element 0, and the step ends in Go's index panic. On a
  machine of the sizes of \<^verbatim>\<open>NewMachine\<close> the IN step returns exactly when the buffer
  holds a character or the refill brings one.
\<close>

theorem in_needs_nonempty_refill:
  assumes "sized m" and "memory m ! unat (pc m) = IN" and "unat (pc m) + 1 < 32768"
  shows "(unused_input m = [] \<and> (case input m of [] \<Rightarrow> True | l # ls \<Rightarrow> l = [])
          \<longrightarrow> unused_input (refill m) = [] \<and> Step m = Inl IndexOutOfRange)
    \<and> ((\<exists>m'. Step m = Inr m') \<longleftrightarrow>
        (unused_input m \<noteq> [] \<or> (case input m of [] \<Rightarrow> False | l # ls \<Rightarrow> l \<noteq> [])))"
proof -
  let ?a = "memory m ! (unat (pc m) + 1)"
  let ?m1 = "refill m"
  have step: "Step m = exec m IN [?a]"
    using Step_args1 [OF assms(1) assms(2) _ assms(3)] by simp
  have s1: "sized ?m1" using assms(1) by simp
  obtain i m2 where r: "readArg ?m1 ?a = Inr (i, m2)" and s2: "sized m2"
    and u2: "unused_input m2 = unused_input ?m1"
    using readArg_keeps [OF s1, of ?a] by blast
  have i: "\<not> isReg ?a \<Longrightarrow> isValue i"
    using r by (auto simp: readArg_sized [OF s1] isValue_def split: if_splits)
  have empty: "unused_input ?m1 = [] \<Longrightarrow> Step m = Inl IndexOutOfRange"
    using step r u2 by (simp add: exec_IN advance_def Let_def)
  have nonempty: "unused_input ?m1 \<noteq> [] \<Longrightarrow> \<exists>m'. Step m = Inr m'"
    using step r u2 i
    by (cases "unused_input ?m1")
       (auto simp: exec_IN advance_def Let_def setReg_sized [OF s1] setMem_sized [OF s2])
  have iff: "unused_input ?m1 \<noteq> [] \<longleftrightarrow>
      (unused_input m \<noteq> [] \<or> (case input m of [] \<Rightarrow> False | l # ls \<Rightarrow> l \<noteq> []))"
    by (auto simp: refill_empty_iff split: list.splits)
  show ?thesis
    using empty nonempty iff refill_empty_iff [of m] by (cases "unused_input ?m1 = []") auto
qed

text \<open>
  Witness of C10: the image \<open>[20, 32768]\<close> (IN into register 0) with no input at all.
\<close>

theorem in_needs_nonempty_refill_witness:
  "sized (NewMachine [20, 32768] [])
   \<and> memory (NewMachine [20, 32768] []) ! unat (pc (NewMachine [20, 32768] [])) = IN
   \<and> unused_input (NewMachine [20, 32768] []) = []
   \<and> input (NewMachine [20, 32768] []) = []
   \<and> Step (NewMachine [20, 32768] []) = Inl IndexOutOfRange"
proof -
  let ?m = "NewMachine [20, 32768] []"
  have h1: "sized ?m" by (simp add: sized_def NewMachine_def NREGS_def)
  have h2: "memory ?m ! unat (pc ?m) = IN" by (simp add: NewMachine_def IN_def)
  have h3: "unat (pc ?m) + 1 < 32768" by (simp add: NewMachine_def)
  have h4: "unused_input ?m = []" "input ?m = []" by (simp_all add: NewMachine_def)
  from in_needs_nonempty_refill [OF h1 h2 h3] h4
  have "Step ?m = Inl IndexOutOfRange" by simp
  with h1 h2 h4 show ?thesis by simp
qed

end
